theory Spec2Isabelle
  imports Complex_Main
begin

section \<open>The label stabiliser of AnglesToDetectionCalculator\<close>

text \<open>
  The development embeds the stateful part of
  \<^verbatim>\<open>mediapipe/calculators/util/angles_to_detection_calculator.cc\<close>: the member
  function \<^verbatim>\<open>mostFrequent\<close> and the guard in \<^verbatim>\<open>Process\<close> that decides whether
  it is called.

  Conventions of the embedding.
  \<^item> Scores are values of the machine type \<^verbatim>\<open>float\<close>. The model leaves this type open
    (the type variable \<open>'s\<close>) and takes the operations the source applies to scores as
    parameters, so that nothing is assumed about rounding, infinities or NaN.
  \<^item> Seconds are values of type \<^verbatim>\<open>double\<close>. A timestamp in seconds is a finite
    number, so seconds are the real numbers they denote; comparing them is exact, and
    the subtraction of line 169, which rounds, is a parameter as well.
  \<^item> \<^verbatim>\<open>int\<close> and \<^verbatim>\<open>int32\<close> values are mathematical integers. The counters only count
    entries of the queue, whose length stays below \<^verbatim>\<open>queue_size\<close>.
  \<^item> A call either returns \<open>Inr\<close> of the updated calculator and the updated
    \<^verbatim>\<open>currentInference\<close> (the source passes it by reference), or \<open>Inl\<close> of a fault.
\<close>

subsection \<open>Machine arithmetic\<close>

text \<open>
  The floating point operations of the source: the value-initialised \<^verbatim>\<open>float\<close> (the
  \<^verbatim>\<open>sumScores\<close> of an \<^verbatim>\<open>attr\<close> that \<^verbatim>\<open>operator[]\<close> creates), the \<^verbatim>\<open>+=\<close> of two
  scores in line 191, the division of a score by an \<^verbatim>\<open>int32\<close> count in lines 208 and
  209 (the count is converted to \<^verbatim>\<open>float\<close> first), and the difference of two
  \<^verbatim>\<open>double\<close> seconds in lines 169 and 170.
\<close>

record 's arithmetic =
  float_zero :: 's
  float_add :: "'s \<Rightarrow> 's \<Rightarrow> 's"
  float_div :: "'s \<Rightarrow> int \<Rightarrow> 's"
  double_sub :: "real \<Rightarrow> real \<Rightarrow> real"

subsection \<open>Data\<close>

text \<open>
  \<^verbatim>\<open>inValues_t\<close>: one classifier result. A name cannot end in an underscore here, so
  the members \<^verbatim>\<open>score_\<close>, \<^verbatim>\<open>label_\<close> and \<^verbatim>\<open>options_\<close> of the source carry a prime
  instead.
\<close>

record 's inValues_t =
  score' :: 's
  label' :: int

text \<open>
  The fields of \<^verbatim>\<open>AnglesToDetectionCalculatorOptions\<close> that the source reads, through
  \<^verbatim>\<open>queue_size()\<close>, \<^verbatim>\<open>has_queue_time_out_s()\<close> and \<^verbatim>\<open>queue_time_out_s()\<close>. The
  message declaration is generated code outside this file; the fields are taken as given.
\<close>

record AnglesToDetectionCalculatorOptions =
  queue_size :: int
  has_queue_time_out_s :: bool
  queue_time_out_s :: real

text \<open>The data members of the calculator object.\<close>

record 's AnglesToDetectionCalculator =
  inferenceQueue :: "'s inValues_t list"
  startingGestureTime :: real
  options' :: AnglesToDetectionCalculatorOptions

text \<open>The local \<^verbatim>\<open>struct attr\<close> and \<^verbatim>\<open>struct highestOccurrence_t\<close> of \<^verbatim>\<open>mostFrequent\<close>.\<close>

record 's attr =
  sumScores :: 's
  counts :: int

record highestOccurrence_t =
  label :: int
  count :: int

text \<open>
  What the source can do that has no value in the model: \<^verbatim>\<open>erase(begin())\<close> on an
  empty vector is undefined behaviour.
\<close>

datatype fault = EraseOnEmptyQueue

subsection \<open>The aggregation loop\<close>

text \<open>
  \<^verbatim>\<open>trackInferences[k]\<close>: \<^verbatim>\<open>std::map::operator[]\<close> yields the stored value, or a
  value-initialised one when the key is absent.
\<close>

definition subscript :: "'s arithmetic \<Rightarrow> (int \<rightharpoonup> 's attr) \<Rightarrow> int \<Rightarrow> 's attr" where
  "subscript ar trackInferences k =
     (case trackInferences k of
        None \<Rightarrow> \<lparr>sumScores = float_zero ar, counts = 0\<rparr>
      | Some a \<Rightarrow> a)"

text \<open>One iteration of the loop over the queue (lines 180 to 205).\<close>

definition track_step ::
  "'s arithmetic \<Rightarrow> (int \<rightharpoonup> 's attr) \<times> highestOccurrence_t \<Rightarrow> 's inValues_t
     \<Rightarrow> (int \<rightharpoonup> 's attr) \<times> highestOccurrence_t"
where
  "track_step ar st cInference =
     (let trackInferences = fst st;
          highestOccurrence = snd st;
          trackInferences' =
            (case trackInferences (label' cInference) of
               None \<Rightarrow>
                 trackInferences(label' cInference \<mapsto>
                   \<lparr>sumScores = score' cInference, counts = 1\<rparr>)
             | Some a \<Rightarrow>
                 trackInferences(label' cInference \<mapsto>
                   \<lparr>sumScores = float_add ar (sumScores a) (score' cInference),
                    counts = counts a + 1\<rparr>))
      in if counts (subscript ar trackInferences' (label' cInference)) > count highestOccurrence
         then (trackInferences',
               \<lparr>label = label' cInference,
                count = counts (subscript ar trackInferences' (label' cInference))\<rparr>)
         else (trackInferences', highestOccurrence))"

text \<open>
  The whole loop, from the empty map and the zero-initialised record
  \<^verbatim>\<open>highestOccurrence = {}\<close>.
\<close>

definition track ::
  "'s arithmetic \<Rightarrow> 's inValues_t list \<Rightarrow> (int \<rightharpoonup> 's attr) \<times> highestOccurrence_t"
where
  "track ar queue = foldl (track_step ar) (Map.empty, \<lparr>label = 0, count = 0\<rparr>) queue"

text \<open>
  Lines 207 to 209: the new \<^verbatim>\<open>currentInference\<close> computed from the loop's result.
\<close>

definition aggregate :: "'s arithmetic \<Rightarrow> 's inValues_t list \<Rightarrow> 's inValues_t" where
  "aggregate ar queue =
     (let trackInferences = fst (track ar queue);
          highestOccurrence = snd (track ar queue)
      in \<lparr>score' = float_div ar
                      (sumScores (subscript ar trackInferences (label highestOccurrence)))
                      (count highestOccurrence),
          label' = label highestOccurrence\<rparr>)"

subsection \<open>mostFrequent and its call in Process\<close>

text \<open>
  Lines 166 to 173: \<^verbatim>\<open>emplace_back\<close>, then the conditional \<^verbatim>\<open>clear\<close>. The result is
  the queue as it stands when line 174 is reached. A \<^verbatim>\<open>double\<close> used as a condition
  is true when it is not zero.
\<close>

definition enqueue ::
  "'s arithmetic \<Rightarrow> 's AnglesToDetectionCalculator \<Rightarrow> 's inValues_t \<Rightarrow> real
     \<Rightarrow> 's inValues_t list"
where
  "enqueue ar c currentInference currGestureTime =
     (let appended = inferenceQueue c @ [currentInference]
      in if has_queue_time_out_s (options' c) \<and> startingGestureTime c \<noteq> 0
         then
           if double_sub ar currGestureTime (startingGestureTime c)
                \<ge> queue_time_out_s (options' c)
           then []
           else appended
         else appended)"

text \<open>
  The whole of \<^verbatim>\<open>mostFrequent\<close>: the queue and the timestamp are stored (lines 166 to
  174); when the queue has reached \<^verbatim>\<open>queue_size\<close> its first entry is erased (line 178)
  and the loop runs over what remains. The source compares \<^verbatim>\<open>inferenceQueue.size()\<close>
  with \<^verbatim>\<open>queue_size()\<close>; the model compares them as integers, which is what the source
  does for every \<^verbatim>\<open>queue_size\<close> that is not negative, and \<^verbatim>\<open>Process\<close> calls
  \<^verbatim>\<open>mostFrequent\<close> only when \<^verbatim>\<open>queue_size\<close> is greater than one.
\<close>

definition mostFrequent ::
  "'s arithmetic \<Rightarrow> 's AnglesToDetectionCalculator \<Rightarrow> 's inValues_t \<Rightarrow> real
     \<Rightarrow> fault + ('s AnglesToDetectionCalculator \<times> 's inValues_t)"
where
  "mostFrequent ar c currentInference currGestureTime =
     (let c1 = c\<lparr>inferenceQueue := enqueue ar c currentInference currGestureTime,
                 startingGestureTime := currGestureTime\<rparr>
      in if int (length (inferenceQueue c1)) \<ge> queue_size (options' c1)
         then
           (case inferenceQueue c1 of
              [] \<Rightarrow> Inl EraseOnEmptyQueue
            | oldest # remaining \<Rightarrow>
                Inr (c1\<lparr>inferenceQueue := remaining\<rparr>, aggregate ar remaining))
         else Inr (c1, currentInference))"

text \<open>
  Lines 121 and 122 of \<^verbatim>\<open>Process\<close>, for the \<^verbatim>\<open>currentInference\<close> read from the input
  tensor and the seconds of the input timestamp.
\<close>

definition update ::
  "'s arithmetic \<Rightarrow> 's AnglesToDetectionCalculator \<Rightarrow> 's inValues_t \<Rightarrow> real
     \<Rightarrow> fault + ('s AnglesToDetectionCalculator \<times> 's inValues_t)"
where
  "update ar c currentInference seconds =
     (if queue_size (options' c) > 1 then mostFrequent ar c currentInference seconds
      else Inr (c, currentInference))"

text \<open>
  Modelled from the spec: the calculator as the host framework hands it to the first
  \<^verbatim>\<open>Process\<close> call (the construction is done by the framework, outside this file):
  the window is empty, the last seen timestamp holds the unset value zero, and
  \<^verbatim>\<open>Open\<close> has stored the options.
\<close>

definition init :: "AnglesToDetectionCalculatorOptions \<Rightarrow> 's AnglesToDetectionCalculator" where
  "init opts = \<lparr>inferenceQueue = [], startingGestureTime = 0, options' = opts\<rparr>"

text \<open>
  Successive \<^verbatim>\<open>Process\<close> calls on one calculator: the observations with their
  timestamps go in, the calculator after the last call and the outputs of all calls
  come out. A fault ends the run.
\<close>

fun run ::
  "'s arithmetic \<Rightarrow> 's AnglesToDetectionCalculator \<Rightarrow> ('s inValues_t \<times> real) list
     \<Rightarrow> fault + ('s AnglesToDetectionCalculator \<times> 's inValues_t list)"
where
  "run ar c [] = Inr (c, [])"
| "run ar c ((currentInference, seconds) # rest) =
     (case update ar c currentInference seconds of
        Inl f \<Rightarrow> Inl f
      | Inr (c', out) \<Rightarrow>
          (case run ar c' rest of
             Inl f \<Rightarrow> Inl f
           | Inr (c'', outs) \<Rightarrow> Inr (c'', out # outs)))"

definition outputs ::
  "'s arithmetic \<Rightarrow> 's AnglesToDetectionCalculator \<Rightarrow> ('s inValues_t \<times> real) list
     \<Rightarrow> fault + 's inValues_t list"
where
  "outputs ar c xs = (case run ar c xs of Inl f \<Rightarrow> Inl f | Inr (c', outs) \<Rightarrow> Inr outs)"

subsection \<open>Quantities of a window\<close>

text \<open>
  The number of entries of a window that carry a label, and the sum of their scores as
  the machine computes it: from the first of them on, one addition for each further
  one, in the order of the window. The theorems compare the loop's bookkeeping with
  these.
\<close>

definition votes :: "int \<Rightarrow> 's inValues_t list \<Rightarrow> int" where
  "votes l window = int (length (filter (\<lambda>e. label' e = l) window))"

fun float_sum :: "'s arithmetic \<Rightarrow> 's list \<Rightarrow> 's" where
  "float_sum ar [] = float_zero ar"
| "float_sum ar (x # xs) = foldl (float_add ar) x xs"

definition scores_of :: "'s arithmetic \<Rightarrow> int \<Rightarrow> 's inValues_t list \<Rightarrow> 's" where
  "scores_of ar l window = float_sum ar (map score' (filter (\<lambda>e. label' e = l) window))"

subsection \<open>Two arithmetics\<close>

text \<open>
  The arithmetic of IEEE 754 on finite numbers, with rounding to the nearest
  representable number and ties to the even one: \<open>p\<close> is the number of bits of the
  significand and \<open>emin\<close> the smallest exponent of a normal number, below which the
  spacing of the numbers no longer shrinks. \<^verbatim>\<open>float\<close> is binary32 and \<^verbatim>\<open>double\<close> is
  binary64. Results beyond the largest finite number of a format, NaN and the sign of
  zero are not represented. This arithmetic serves concrete runs only, whose numbers
  are far from these ranges; the general theorems hold for every arithmetic.
\<close>

definition exponent :: "real \<Rightarrow> int" where
  "exponent x = \<lfloor>log 2 \<bar>x\<bar>\<rfloor>"

definition round_half_even :: "real \<Rightarrow> int" where
  "round_half_even x =
     (let below = \<lfloor>x\<rfloor>
      in if x - of_int below < 1 / 2 then below
         else if x - of_int below > 1 / 2 then below + 1
         else if even below then below
         else below + 1)"

definition round_nearest_even :: "nat \<Rightarrow> int \<Rightarrow> real \<Rightarrow> real" where
  "round_nearest_even p emin x =
     (let e = max (exponent x) emin - int p + 1
      in of_int (round_half_even (x / 2 powi e)) * 2 powi e)"

definition binary32 :: "real \<Rightarrow> real" where
  "binary32 x = round_nearest_even 24 (- 126) x"

definition binary64 :: "real \<Rightarrow> real" where
  "binary64 x = round_nearest_even 53 (- 1022) x"

definition ieee_arithmetic :: "real arithmetic" where
  "ieee_arithmetic =
     \<lparr>float_zero = 0,
      float_add = (\<lambda>x y. binary32 (x + y)),
      float_div = (\<lambda>x n. binary32 (x / binary32 (real_of_int n))),
      double_sub = (\<lambda>x y. binary64 (x - y))\<rparr>"

text \<open>
  Arithmetic without rounding. It computes what the machine computes wherever no
  operation of the machine rounds: a division by the count one, and sums, halves and
  differences of small integers and binary fractions. The concrete runs below that use
  it are of this kind. A decimal score such as 0.7 stands for the \<^verbatim>\<open>float\<close> that the
  classifier delivered; these runs only store such a score or divide it by one.
\<close>

definition exact_arithmetic :: "real arithmetic" where
  "exact_arithmetic =
     \<lparr>float_zero = 0,
      float_add = (\<lambda>x y. x + y),
      float_div = (\<lambda>x n. x / real_of_int n),
      double_sub = (\<lambda>x y. x - y)\<rparr>"

subsection \<open>Concrete calculators and runs used below\<close>

text \<open>
  The example of the specification (capacity three, no time-out, four observations at
  the timestamps 0 to 3), and calculators in the middle of a run: \<open>busy\<close> has a time-out
  of two seconds and saw its last observation at second one, \<open>other\<close> has no time-out,
  \<open>thirds\<close> has capacity four and holds the scores 1/2 and 1/4 for label 1 behind its
  oldest entry. \<open>late\<close> is \<open>busy\<close> with its last observation at 237796 microseconds:
  \<open>seen_at\<close> and \<open>called_at\<close> are the seconds, in binary64, of the timestamps 237796 and
  2237796 microseconds.
\<close>

definition example_options :: AnglesToDetectionCalculatorOptions where
  "example_options = \<lparr>queue_size = 3, has_queue_time_out_s = False, queue_time_out_s = 0\<rparr>"

definition example_inputs :: "(real inValues_t \<times> real) list" where
  "example_inputs =
     [(\<lparr>score' = 0.5, label' = 1\<rparr>, 0), (\<lparr>score' = 0.7, label' = 1\<rparr>, 1),
      (\<lparr>score' = 0.9, label' = 2\<rparr>, 2), (\<lparr>score' = 0.6, label' = 1\<rparr>, 3)]"

definition timed_options :: AnglesToDetectionCalculatorOptions where
  "timed_options = \<lparr>queue_size = 3, has_queue_time_out_s = True, queue_time_out_s = 2\<rparr>"

definition busy :: "real AnglesToDetectionCalculator" where
  "busy = \<lparr>inferenceQueue = [\<lparr>score' = 0.5, label' = 1\<rparr>, \<lparr>score' = 0.25, label' = 1\<rparr>],
           startingGestureTime = 1, options' = timed_options\<rparr>"

definition other :: "real AnglesToDetectionCalculator" where
  "other = \<lparr>inferenceQueue = [\<lparr>score' = 0.125, label' = 7\<rparr>, \<lparr>score' = 0.25, label' = 1\<rparr>],
            startingGestureTime = 0, options' = example_options\<rparr>"


definition seen_at :: real where
  "seen_at = 2141875953980389 / 9007199254740992"

definition called_at :: real where
  "called_at = 5039068615865593 / 2251799813685248"


lemmas eval_defs =
  example_options_def example_inputs_def timed_options_def busy_def other_def
  outputs_def init_def update_def mostFrequent_def enqueue_def aggregate_def
  track_def track_step_def subscript_def exact_arithmetic_def Let_def

section \<open>The loop's bookkeeping\<close>

text \<open>
  After the loop has run over a window, the map holds for every label its number of
  entries and the machine's sum of their scores, and \<^verbatim>\<open>highestOccurrence\<close> holds the
  largest count together with the label whose running count got there first.
\<close>

lemma track_Nil: "track ar [] = (Map.empty, \<lparr>label = 0, count = 0\<rparr>)"
  by (simp add: track_def)

lemma track_snoc: "track ar (w @ [e]) = track_step ar (track ar w) e"
  by (simp add: track_def)

lemma votes_Nil: "votes l [] = 0"
  by (simp add: votes_def)

lemma votes_snoc: "votes l (w @ [e]) = votes l w + (if label' e = l then 1 else 0)"
  by (simp add: votes_def)

lemma votes_nonneg: "0 \<le> votes l w"
  by (simp add: votes_def)

lemma votes_zero_iff: "votes l w = 0 \<longleftrightarrow> filter (\<lambda>e. label' e = l) w = []"
  by (simp add: votes_def)

lemma float_sum_snoc:
  "float_sum ar (xs @ [y]) = (if xs = [] then y else float_add ar (float_sum ar xs) y)"
  by (cases xs) simp_all

lemma scores_of_snoc:
  "scores_of ar l (w @ [e]) =
     (if label' e \<noteq> l then scores_of ar l w
      else if votes l w = 0 then score' e
      else float_add ar (scores_of ar l w) (score' e))"
  by (simp add: scores_of_def float_sum_snoc votes_zero_iff)

lemma scores_of_no_votes: "votes l w = 0 \<Longrightarrow> scores_of ar l w = float_zero ar"
  by (simp add: votes_zero_iff scores_of_def)

lemma fst_track_step:
  "fst (track_step ar st e) =
     (fst st)(label' e \<mapsto>
        (case fst st (label' e) of
           None \<Rightarrow> \<lparr>sumScores = score' e, counts = 1\<rparr>
         | Some a \<Rightarrow> \<lparr>sumScores = float_add ar (sumScores a) (score' e),
                        counts = counts a + 1\<rparr>))"
  by (simp add: track_step_def Let_def split: option.split)

lemma snd_track_step:
  "snd (track_step ar st e) =
     (if count (snd st) < counts (subscript ar (fst (track_step ar st e)) (label' e))
      then \<lparr>label = label' e,
            count = counts (subscript ar (fst (track_step ar st e)) (label' e))\<rparr>
      else snd st)"
  by (simp add: track_step_def Let_def split: option.split)

lemma fst_track:
  "fst (track ar w) l =
     (if votes l w = 0 then None
      else Some \<lparr>sumScores = scores_of ar l w, counts = votes l w\<rparr>)"
proof (induction w rule: rev_induct)
  case Nil
  show ?case by (simp add: track_Nil votes_Nil)
next
  case (snoc e w)
  have pos: "votes l w + 1 \<noteq> 0" using votes_nonneg [of l w] by arith
  show ?case
  proof (cases "label' e = l")
    case True
    with snoc pos show ?thesis
      by (simp add: track_snoc fst_track_step votes_snoc scores_of_snoc)
  next
    case False
    with snoc show ?thesis
      by (simp add: track_snoc fst_track_step votes_snoc scores_of_snoc)
  qed
qed

lemma subscript_track:
  "subscript ar (fst (track ar w)) l = \<lparr>sumScores = scores_of ar l w, counts = votes l w\<rparr>"
  by (simp add: subscript_def fst_track scores_of_no_votes)

lemma snd_track_snoc:
  "snd (track ar (w @ [e])) =
     (if count (snd (track ar w)) < votes (label' e) (w @ [e])
      then \<lparr>label = label' e, count = votes (label' e) (w @ [e])\<rparr>
      else snd (track ar w))"
proof -
  have "subscript ar (fst (track_step ar (track ar w) e)) (label' e)
          = \<lparr>sumScores = scores_of ar (label' e) (w @ [e]),
             counts = votes (label' e) (w @ [e])\<rparr>"
    using subscript_track [of ar "w @ [e]" "label' e"] by (simp add: track_snoc)
  then show ?thesis
    by (simp add: track_snoc snd_track_step [of ar "track ar w" e])
qed

lemma track_count_max: "votes l w \<le> count (snd (track ar w))"
proof (induction w rule: rev_induct)
  case Nil
  show ?case by (simp add: track_Nil votes_Nil)
next
  case (snoc e w)
  then show ?case
    by (simp add: snd_track_snoc) (simp add: votes_snoc split: if_splits)
qed

lemma track_count_winner:
  "w \<noteq> [] \<Longrightarrow> votes (label (snd (track ar w))) w = count (snd (track ar w))"
proof (induction w rule: rev_induct)
  case Nil
  then show ?case by simp
next
  case (snoc e w)
  show ?case
  proof (cases "count (snd (track ar w)) < votes (label' e) (w @ [e])")
    case True
    then show ?thesis by (simp add: snd_track_snoc)
  next
    case False
    have "w \<noteq> []"
    proof
      assume "w = []"
      with False show False by (simp add: track_Nil votes_def)
    qed
    with snoc have ih: "votes (label (snd (track ar w))) w = count (snd (track ar w))" by simp
    have "label' e \<noteq> label (snd (track ar w))"
    proof
      assume "label' e = label (snd (track ar w))"
      with False ih show False by (simp add: votes_snoc)
    qed
    with False ih show ?thesis by (simp add: snd_track_snoc votes_snoc)
  qed
qed

lemma track_first_to_reach:
  "w \<noteq> [] \<Longrightarrow>
     \<exists>i<length w. label' (w ! i) = label (snd (track ar w))
        \<and> votes (label' (w ! i)) (take (Suc i) w) = count (snd (track ar w))
        \<and> (\<forall>j<i. votes (label' (w ! j)) (take (Suc j) w) < count (snd (track ar w)))"
proof (induction w rule: rev_induct)
  case Nil
  then show ?case by simp
next
  case (snoc e w)
  have prefix: "votes (label' ((w @ [e]) ! j)) (take (Suc j) (w @ [e]))
                  = votes (label' (w ! j)) (take (Suc j) w)" if "j < length w" for j
    using that by (simp add: nth_append)
  have below: "votes (label' (w ! j)) (take (Suc j) w) \<le> count (snd (track ar w))" for j
  proof -
    have "votes (label' (w ! j)) (take (Suc j) w)
            \<le> votes (label' (w ! j)) (take (Suc j) w @ drop (Suc j) w)"
      unfolding votes_def filter_append by simp
    also have "\<dots> \<le> count (snd (track ar w))" by (simp add: track_count_max)
    finally show ?thesis .
  qed
  show ?case
  proof (cases "count (snd (track ar w)) < votes (label' e) (w @ [e])")
    case True
    have "\<forall>j<length w. votes (label' ((w @ [e]) ! j)) (take (Suc j) (w @ [e]))
            < votes (label' e) (w @ [e])"
      using True below prefix by (metis le_less_trans)
    with True show ?thesis
      by (intro exI [of _ "length w"]) (simp add: snd_track_snoc)
  next
    case False
    have "w \<noteq> []"
    proof
      assume "w = []"
      with False show False by (simp add: track_Nil votes_def)
    qed
    with snoc obtain i where i: "i < length w"
        "label' (w ! i) = label (snd (track ar w))"
        "votes (label' (w ! i)) (take (Suc i) w) = count (snd (track ar w))"
        "\<forall>j<i. votes (label' (w ! j)) (take (Suc j) w) < count (snd (track ar w))"
      by blast
    have "\<forall>j<i. votes (label' ((w @ [e]) ! j)) (take (Suc j) (w @ [e]))
            < count (snd (track ar w))"
      using i(1) i(4) prefix by simp
    with i False show ?thesis
      by (intro exI [of _ i]) (simp add: snd_track_snoc nth_append)
  qed
qed

section \<open>One call and runs of calls\<close>


lemma aggregate_nonempty:
  assumes "w \<noteq> []"
  shows "aggregate ar w =
           \<lparr>score' = float_div ar (scores_of ar (label (snd (track ar w))) w)
                        (votes (label (snd (track ar w))) w),
            label' = label (snd (track ar w))\<rparr>"
  using track_count_winner [OF assms, of ar]
  by (simp add: aggregate_def Let_def subscript_track)

lemma enqueue_cases:
  "enqueue ar c obs t = [] \<or> enqueue ar c obs t = inferenceQueue c @ [obs]"
  by (simp add: enqueue_def Let_def)

lemma enqueue_length: "length (enqueue ar c obs t) \<le> Suc (length (inferenceQueue c))"
  using enqueue_cases [of ar c obs t] by auto

lemma update_below:
  assumes "1 < queue_size (options' c)"
      and "int (length (enqueue ar c obs t)) < queue_size (options' c)"
  shows "update ar c obs t =
           Inr (c\<lparr>inferenceQueue := enqueue ar c obs t, startingGestureTime := t\<rparr>, obs)"
  using assms by (simp add: update_def mostFrequent_def Let_def)

lemma update_full:
  assumes "1 < queue_size (options' c)"
      and "queue_size (options' c) \<le> int (length (enqueue ar c obs t))"
  shows "tl (enqueue ar c obs t) \<noteq> []"
    and "update ar c obs t =
           Inr (c\<lparr>inferenceQueue := tl (enqueue ar c obs t), startingGestureTime := t\<rparr>,
                aggregate ar (tl (enqueue ar c obs t)))"
proof -
  from assms have len: "2 \<le> length (enqueue ar c obs t)" by arith
  then obtain x y rest where e: "enqueue ar c obs t = x # y # rest"
    by (cases "enqueue ar c obs t"; cases "tl (enqueue ar c obs t)") auto
  then show "tl (enqueue ar c obs t) \<noteq> []" by simp
  from assms e show "update ar c obs t =
           Inr (c\<lparr>inferenceQueue := tl (enqueue ar c obs t), startingGestureTime := t\<rparr>,
                aggregate ar (tl (enqueue ar c obs t)))"
    by (simp add: update_def mostFrequent_def Let_def)
qed

lemma update_off:
  "queue_size (options' c) \<le> 1 \<Longrightarrow> update ar c obs t = Inr (c, obs)"
  by (simp add: update_def)

lemma update_keeps_below:
  assumes "1 < queue_size (options' c)"
      and "int (length (inferenceQueue c)) < queue_size (options' c)"
  shows "\<exists>c' out. update ar c obs t = Inr (c', out) \<and> options' c' = options' c
           \<and> int (length (inferenceQueue c')) < queue_size (options' c)"
proof (cases "int (length (enqueue ar c obs t)) < queue_size (options' c)")
  case True
  with assms(1) show ?thesis by (simp add: update_below)
next
  case False
  then have full: "queue_size (options' c) \<le> int (length (enqueue ar c obs t))" by simp
  have "int (length (tl (enqueue ar c obs t))) < queue_size (options' c)"
    using enqueue_length [of ar c obs t] assms(2) by simp
  with update_full(2) [OF assms(1) full] show ?thesis by simp
qed

lemma run_keeps_below:
  assumes "1 < queue_size (options' c)"
      and "int (length (inferenceQueue c)) < queue_size (options' c)"
  shows "\<exists>c' outs. run ar c xs = Inr (c', outs) \<and> length outs = length xs
           \<and> options' c' = options' c
           \<and> int (length (inferenceQueue c')) < queue_size (options' c)"
  using assms
proof (induction xs arbitrary: c)
  case Nil
  then show ?case by simp
next
  case (Cons x xs)
  obtain obs t where x: "x = (obs, t)" by (cases x)
  from update_keeps_below [OF Cons.prems, of ar obs t]
  obtain c1 out where u: "update ar c obs t = Inr (c1, out)" "options' c1 = options' c"
      "int (length (inferenceQueue c1)) < queue_size (options' c)"
    by blast
  from Cons.IH [of c1] u Cons.prems(1)
  obtain c' outs where r: "run ar c1 xs = Inr (c', outs)" "length outs = length xs"
      "options' c' = options' c1" "int (length (inferenceQueue c')) < queue_size (options' c1)"
    by auto
  with u x show ?case by simp
qed

lemma run_off:
  "queue_size (options' c) \<le> 1 \<Longrightarrow> run ar c xs = Inr (c, map fst xs)"
  by (induction xs) (auto simp: update_off)

lemma run_short:
  assumes "1 < queue_size (options' c)"
      and "int (length (inferenceQueue c)) + int (length xs) < queue_size (options' c)"
  shows "\<exists>c'. run ar c xs = Inr (c', map fst xs)"
  using assms
proof (induction xs arbitrary: c)
  case Nil
  then show ?case by simp
next
  case (Cons x xs)
  obtain obs t where x: "x = (obs, t)" by (cases x)
  let ?c1 = "c\<lparr>inferenceQueue := enqueue ar c obs t, startingGestureTime := t\<rparr>"
  have len: "int (length (enqueue ar c obs t)) \<le> int (length (inferenceQueue c)) + 1"
    using enqueue_length [of ar c obs t] by simp
  with Cons.prems have "int (length (enqueue ar c obs t)) < queue_size (options' c)" by simp
  with Cons.prems(1) have u: "update ar c obs t = Inr (?c1, obs)" by (rule update_below)
  from Cons.prems len have "\<exists>c'. run ar ?c1 xs = Inr (c', map fst xs)"
    by (intro Cons.IH) simp_all
  with u x show ?case by auto
qed

section \<open>Rounding at given numbers\<close>

text \<open>
  Once the binary exponent of a number is known, its rounding is a computation on
  integers. The numbers below are the ones the concrete runs need.
\<close>


lemma exponent_eqI:
  assumes "2 powi k \<le> \<bar>x\<bar>" and "\<bar>x\<bar> < 2 powi (k + 1)"
  shows "exponent x = k"
proof -
  have pos: "0 < \<bar>x\<bar>"
    using assms(1) zero_less_power_int [of "2::real" k] by linarith
  have lower: "(2::real) powr real_of_int k = 2 powi k"
    by (rule powr_real_of_int') simp_all
  have upper: "(2::real) powr real_of_int (k + 1) = 2 powi (k + 1)"
    by (rule powr_real_of_int') simp_all
  have "\<lfloor>log 2 \<bar>x\<bar>\<rfloor> = k \<longleftrightarrow>
          2 powr real_of_int k \<le> \<bar>x\<bar> \<and> \<bar>x\<bar> < 2 powr real_of_int (k + 1)"
    using pos by (intro floor_log_eq_powr_iff) simp_all
  with assms show ?thesis
    unfolding exponent_def lower upper by blast
qed

lemma round_nearest_even_eval:
  assumes "2 powi k \<le> \<bar>x\<bar>" and "\<bar>x\<bar> < 2 powi (k + 1)"
  shows "round_nearest_even p emin x =
           of_int (round_half_even (x / 2 powi (max k emin - int p + 1)))
             * 2 powi (max k emin - int p + 1)"
  by (simp add: round_nearest_even_def Let_def exponent_eqI [OF assms])








lemma binary64_four: "binary64 4 = 4"
  unfolding binary64_def
  by (subst round_nearest_even_eval [where k = "2"])
     (simp_all add: round_half_even_def Let_def power_int_minus)

lemma seconds_seen_at: "binary64 (237796 / 1000000) = seen_at"
  unfolding binary64_def seen_at_def
  by (subst round_nearest_even_eval [where k = "- 3"])
     (simp_all add: round_half_even_def Let_def power_int_minus)

lemma seconds_called_at: "binary64 (2237796 / 1000000) = called_at"
  unfolding binary64_def called_at_def
  by (subst round_nearest_even_eval [where k = "1"])
     (simp_all add: round_half_even_def Let_def power_int_minus)



section \<open>The claims\<close>

text \<open>
  C1, as amended. With \<^verbatim>\<open>queue_size = 3\<close> and no time-out, the observations
  (1, 0.5), (1, 0.7), (2, 0.9), (1, 0.6) at the timestamps 0, 1, 2, 3 give the outputs
  (1, 0.5), (1, 0.7), (1, 0.7), (2, 0.9). The third call brings the queue to three
  entries, erases the oldest one and votes over (1, 0.7), (2, 0.9): both labels have one
  entry, label 1 got there first. The fourth call votes over (2, 0.9), (1, 0.6)
  and label 2 got there first. The only arithmetic of this run is the division of a
  single score by the count one.
\<close>

theorem example_run_outputs:
  "outputs exact_arithmetic (init example_options) example_inputs =
     Inr [\<lparr>score' = 0.5, label' = 1\<rparr>, \<lparr>score' = 0.7, label' = 1\<rparr>,
          \<lparr>score' = 0.7, label' = 1\<rparr>, \<lparr>score' = 0.9, label' = 2\<rparr>]"
  by (simp add: eval_defs)

text \<open>
  C1, as stated: the outputs (1, 0.5), (1, 0.7), (1, 0.6), (1, 0.65) are not what the
  run produces.
\<close>

theorem example_run_counterexample:
  "outputs exact_arithmetic (init example_options) example_inputs \<noteq>
     Inr [\<lparr>score' = 0.5, label' = 1\<rparr>, \<lparr>score' = 0.7, label' = 1\<rparr>,
          \<lparr>score' = 0.6, label' = 1\<rparr>, \<lparr>score' = 0.65, label' = 1\<rparr>]"
  by (simp add: eval_defs)

text \<open>
  C2. A call on which the time-out fires: a time-out is configured, the last seen
  timestamp is set (not zero) and the gap to it, as line 169 computes it, is at least
  the time-out. The queue is cleared after \<^verbatim>\<open>emplace_back\<close>, so the observation just
  appended goes with the rest: the queue is empty right after the clear. The call
  returns the observation it was given, and when the stabiliser is on
  (\<^verbatim>\<open>queue_size > 1\<close>, the only case in which \<^verbatim>\<open>Process\<close> reaches the clear) it leaves
  the empty queue and the new timestamp behind.
\<close>

theorem timeout_discards_appended:
  assumes "has_queue_time_out_s (options' c)"
      and "startingGestureTime c \<noteq> 0"
      and "queue_time_out_s (options' c) \<le> double_sub ar t (startingGestureTime c)"
  shows "enqueue ar c obs t = []
         \<and> update ar c obs t =
             Inr (if 1 < queue_size (options' c)
                  then c\<lparr>inferenceQueue := [], startingGestureTime := t\<rparr>
                  else c,
                  obs)"
proof -
  from assms have e: "enqueue ar c obs t = []" by (simp add: enqueue_def Let_def)
  show ?thesis
  proof (cases "1 < queue_size (options' c)")
    case True
    with e have "int (length (enqueue ar c obs t)) < queue_size (options' c)" by simp
    with True have "update ar c obs t =
        Inr (c\<lparr>inferenceQueue := enqueue ar c obs t, startingGestureTime := t\<rparr>, obs)"
      by (rule update_below)
    with e True show ?thesis by simp
  next
    case False
    with e show ?thesis by (simp add: update_off)
  qed
qed

text \<open>
  The calculator \<open>busy\<close> (two entries, last seen at second 1, time-out 2) at second 5.
\<close>

theorem timeout_discards_appended_witness:
  "has_queue_time_out_s (options' busy) \<and> startingGestureTime busy \<noteq> 0
   \<and> queue_time_out_s (options' busy) \<le> double_sub ieee_arithmetic 5 (startingGestureTime busy)
   \<and> enqueue ieee_arithmetic busy \<lparr>score' = 0.9, label' = 2\<rparr> 5 = []
   \<and> update ieee_arithmetic busy \<lparr>score' = 0.9, label' = 2\<rparr> 5 =
       Inr (\<lparr>inferenceQueue = [], startingGestureTime = 5, options' = timed_options\<rparr>,
            \<lparr>score' = 0.9, label' = 2\<rparr>)"
  using timeout_discards_appended [of busy ieee_arithmetic 5 "\<lparr>score' = 0.9, label' = 2\<rparr>"]
  by (simp add: busy_def timed_options_def ieee_arithmetic_def binary64_four)




text \<open>
  C4. On a call on which the aggregation runs (the stabiliser is on and the queue has
  reached \<^verbatim>\<open>queue_size\<close> after the append and the time-out check), the vote is taken
  over the queue without its oldest entry. If one label has strictly more entries there
  than every other label, the call returns that label.
\<close>

theorem majority_label_returned:
  assumes "1 < queue_size (options' c)"
      and "queue_size (options' c) \<le> int (length (enqueue ar c obs t))"
      and "\<forall>l'. l' \<noteq> l \<longrightarrow>
             votes l' (tl (enqueue ar c obs t)) < votes l (tl (enqueue ar c obs t))"
  shows "\<exists>c' out. update ar c obs t = Inr (c', out) \<and> label' out = l"
proof -
  let ?w = "tl (enqueue ar c obs t)"
  let ?winner = "label (snd (track ar ?w))"
  from update_full [OF assms(1,2)]
  have ne: "?w \<noteq> []"
    and u: "\<exists>c' out. update ar c obs t = Inr (c', out) \<and> label' out = ?winner"
    by (simp_all add: aggregate_nonempty)
  have "votes l ?w \<le> count (snd (track ar ?w))" by (rule track_count_max)
  also have "\<dots> = votes ?winner ?w" using ne by (simp add: track_count_winner)
  finally have "\<not> votes ?winner ?w < votes l ?w" by simp
  with assms(3) have "?winner = l" by blast
  with u show ?thesis by simp
qed

text \<open>
  The calculator \<open>busy\<close> receives (1, 0.75) at second 2: the vote is over
  (1, 0.25), (1, 0.75), where label 1 outnumbers every other label.
\<close>

theorem majority_label_returned_witness:
  "1 < queue_size (options' busy)
   \<and> queue_size (options' busy)
       \<le> int (length (enqueue exact_arithmetic busy \<lparr>score' = 0.75, label' = 1\<rparr> 2))
   \<and> tl (enqueue exact_arithmetic busy \<lparr>score' = 0.75, label' = 1\<rparr> 2)
        = [\<lparr>score' = 0.25, label' = 1\<rparr>, \<lparr>score' = 0.75, label' = 1\<rparr>]
   \<and> (\<exists>c' out. update exact_arithmetic busy \<lparr>score' = 0.75, label' = 1\<rparr> 2 = Inr (c', out)
         \<and> label' out = 1)"
proof -
  let ?obs = "\<lparr>score' = 0.75, label' = 1\<rparr> :: real inValues_t"
  have w: "tl (enqueue exact_arithmetic busy ?obs 2) = [\<lparr>score' = 0.25, label' = 1\<rparr>, ?obs]"
    by (simp add: busy_def timed_options_def enqueue_def exact_arithmetic_def Let_def)
  have on: "1 < queue_size (options' busy)"
    by (simp add: busy_def timed_options_def)
  have full: "queue_size (options' busy) \<le> int (length (enqueue exact_arithmetic busy ?obs 2))"
    by (simp add: busy_def timed_options_def enqueue_def exact_arithmetic_def Let_def)
  have major: "\<forall>l'. l' \<noteq> 1 \<longrightarrow>
      votes l' (tl (enqueue exact_arithmetic busy ?obs 2))
        < votes 1 (tl (enqueue exact_arithmetic busy ?obs 2))"
    unfolding w by (simp add: votes_def)
  from majority_label_returned [OF on full major] on full w show ?thesis by simp
qed

text \<open>
  C5. On a call on which the aggregation runs over the window \<open>w\<close>, the returned label
  has the largest number of entries in \<open>w\<close>, and it is the label of the first position
  \<open>i\<close> at which the running count of the entry's own label reaches that largest number:
  at no earlier position does any label's running count reach it. So among labels that
  end with the same largest count the one that got there first wins, and a later label
  that only equals the record does not replace its holder. The result depends on the
  window alone: a second calculator \<open>d\<close>, with other options, timestamps and history,
  that votes over the same window returns the same observation.
\<close>

theorem tie_first_to_reach_wins:
  assumes "1 < queue_size (options' c)"
      and "queue_size (options' c) \<le> int (length (enqueue ar c obs t))"
      and "1 < queue_size (options' d)"
      and "queue_size (options' d) \<le> int (length (enqueue ar d obs2 t2))"
      and "tl (enqueue ar d obs2 t2) = tl (enqueue ar c obs t)"
      and "w = tl (enqueue ar c obs t)"
  shows "\<exists>c' d' out i.
           update ar c obs t = Inr (c', out) \<and> update ar d obs2 t2 = Inr (d', out)
           \<and> (\<forall>l. votes l w \<le> votes (label' out) w)
           \<and> i < length w \<and> label' (w ! i) = label' out
           \<and> votes (label' out) (take (Suc i) w) = votes (label' out) w
           \<and> (\<forall>j<i. votes (label' (w ! j)) (take (Suc j) w) < votes (label' out) w)"
proof -
  let ?winner = "label (snd (track ar w))"
  let ?out = "aggregate ar w"
  from update_full [OF assms(1,2)] assms(6)
  have ne: "w \<noteq> []"
    and uc: "update ar c obs t = Inr (c\<lparr>inferenceQueue := w, startingGestureTime := t\<rparr>, ?out)"
    by simp_all
  from update_full(2) [OF assms(3,4)] assms(5,6)
  have ud: "update ar d obs2 t2 = Inr (d\<lparr>inferenceQueue := w, startingGestureTime := t2\<rparr>, ?out)"
    by simp
  have out: "label' ?out = ?winner"
    using ne by (simp add: aggregate_nonempty)
  have cnt: "count (snd (track ar w)) = votes ?winner w"
    using ne by (simp add: track_count_winner)
  have top: "\<forall>l. votes l w \<le> votes ?winner w"
    using track_count_max [of _ w ar] cnt by simp
  from track_first_to_reach [OF ne, of ar] cnt
  obtain i where "i < length w" "label' (w ! i) = ?winner"
      "votes ?winner (take (Suc i) w) = votes ?winner w"
      "\<forall>j<i. votes (label' (w ! j)) (take (Suc j) w) < votes ?winner w"
    by auto
  with uc ud top out show ?thesis
    by (intro exI [of _ "c\<lparr>inferenceQueue := w, startingGestureTime := t\<rparr>"]
              exI [of _ "d\<lparr>inferenceQueue := w, startingGestureTime := t2\<rparr>"]
              exI [of _ ?out] exI [of _ i]) simp
qed

text \<open>
  The calculators \<open>busy\<close> and \<open>other\<close> both vote over (1, 0.25), (2, 0.9), where the
  labels 1 and 2 have one entry each; both return label 1.
\<close>

theorem tie_first_to_reach_wins_witness:
  "1 < queue_size (options' busy)
   \<and> queue_size (options' busy)
       \<le> int (length (enqueue exact_arithmetic busy \<lparr>score' = 0.9, label' = 2\<rparr> 2))
   \<and> 1 < queue_size (options' other)
   \<and> queue_size (options' other)
       \<le> int (length (enqueue exact_arithmetic other \<lparr>score' = 0.9, label' = 2\<rparr> 9))
   \<and> tl (enqueue exact_arithmetic other \<lparr>score' = 0.9, label' = 2\<rparr> 9)
       = tl (enqueue exact_arithmetic busy \<lparr>score' = 0.9, label' = 2\<rparr> 2)
   \<and> [\<lparr>score' = 0.25, label' = 1\<rparr>, \<lparr>score' = 0.9, label' = 2\<rparr>]
       = tl (enqueue exact_arithmetic busy \<lparr>score' = 0.9, label' = 2\<rparr> 2)
   \<and> votes 1 [\<lparr>score' = 0.25 :: real, label' = 1\<rparr>, \<lparr>score' = 0.9, label' = 2\<rparr>]
       = votes 2 [\<lparr>score' = 0.25 :: real, label' = 1\<rparr>, \<lparr>score' = 0.9, label' = 2\<rparr>]
   \<and> (\<exists>c' d' out. update exact_arithmetic busy \<lparr>score' = 0.9, label' = 2\<rparr> 2 = Inr (c', out)
         \<and> update exact_arithmetic other \<lparr>score' = 0.9, label' = 2\<rparr> 9 = Inr (d', out)
         \<and> label' out = 1)"
proof -
  let ?obs = "\<lparr>score' = 0.9, label' = 2\<rparr> :: real inValues_t"
  let ?w = "[\<lparr>score' = 0.25, label' = 1\<rparr>, ?obs]"
  have wc: "?w = tl (enqueue exact_arithmetic busy ?obs 2)"
    by (simp add: busy_def timed_options_def enqueue_def exact_arithmetic_def Let_def)
  have wd: "tl (enqueue exact_arithmetic other ?obs 9) = tl (enqueue exact_arithmetic busy ?obs 2)"
    by (simp add: busy_def other_def timed_options_def example_options_def enqueue_def
        exact_arithmetic_def Let_def)
  have c: "1 < queue_size (options' busy)"
      "queue_size (options' busy) \<le> int (length (enqueue exact_arithmetic busy ?obs 2))"
    by (simp_all add: busy_def timed_options_def enqueue_def exact_arithmetic_def Let_def)
  have d: "1 < queue_size (options' other)"
      "queue_size (options' other) \<le> int (length (enqueue exact_arithmetic other ?obs 9))"
    by (simp_all add: other_def example_options_def enqueue_def Let_def)
  have tie: "votes 1 ?w = votes 2 ?w" by (simp add: votes_def)
  from tie_first_to_reach_wins [OF c d wd wc]
  obtain c' d' out i where r: "update exact_arithmetic busy ?obs 2 = Inr (c', out)"
      "update exact_arithmetic other ?obs 9 = Inr (d', out)"
      "i < length ?w" "label' (?w ! i) = label' out"
      "\<forall>j<i. votes (label' (?w ! j)) (take (Suc j) ?w) < votes (label' out) ?w"
    by blast
  have "i = 0"
  proof (rule ccontr)
    assume "i \<noteq> 0"
    with r(5) have "votes (label' (?w ! 0)) (take (Suc 0) ?w) < votes (label' out) ?w" by blast
    moreover from r(3) \<open>i \<noteq> 0\<close> have "i = 1" by simp
    ultimately show False using r(4) by (simp add: votes_def)
  qed
  with r(4) have "label' out = 1" by simp
  with r(1,2) c d wd wc tie show ?thesis by blast
qed




text \<open>
  C7. With \<^verbatim>\<open>queue_size\<close> at least 2, a run of fewer than \<^verbatim>\<open>queue_size\<close> calls on a
  fresh calculator ends without a fault, and every call returns the observation it was
  given.
\<close>

theorem short_sequence_passthrough:
  assumes "2 \<le> queue_size opts"
      and "int (length xs) < queue_size opts"
  shows "\<exists>c'. run ar (init opts) xs = Inr (c', map fst xs)"
  using assms by (intro run_short) (simp_all add: init_def)

text \<open>The first two observations of the example, with capacity three.\<close>

theorem short_sequence_passthrough_witness:
  "2 \<le> queue_size example_options
   \<and> int (length (take 2 example_inputs)) < queue_size example_options
   \<and> outputs exact_arithmetic (init example_options) (take 2 example_inputs)
       = Inr [\<lparr>score' = 0.5, label' = 1\<rparr>, \<lparr>score' = 0.7, label' = 1\<rparr>]"
proof -
  have h: "2 \<le> queue_size example_options"
      "int (length (take 2 example_inputs)) < queue_size example_options"
    by (simp_all add: example_options_def example_inputs_def)
  from short_sequence_passthrough [OF h, of exact_arithmetic]
  obtain c' where "run exact_arithmetic (init example_options) (take 2 example_inputs)
                     = Inr (c', map fst (take 2 example_inputs))"
    by blast
  then have "outputs exact_arithmetic (init example_options) (take 2 example_inputs)
               = Inr (map fst (take 2 example_inputs))"
    by (simp add: outputs_def)
  with h show ?thesis by (simp add: example_inputs_def)
qed

text \<open>
  C8. With \<^verbatim>\<open>queue_size\<close> at most 1, a call returns the observation it was given and
  the calculator as it was: the queue and the last seen timestamp are untouched.
\<close>

theorem disabled_passthrough_no_state_change:
  assumes "queue_size (options' c) \<le> 1"
  shows "update ar c obs t = Inr (c, obs)"
  using assms by (simp add: update_def)

text \<open>
  The calculator \<open>busy\<close> with its capacity set to one, at a second at which its
  time-out would fire.
\<close>

theorem disabled_passthrough_no_state_change_witness:
  "queue_size (options' (busy\<lparr>options' := timed_options\<lparr>queue_size := 1\<rparr>\<rparr>)) \<le> 1
   \<and> update exact_arithmetic (busy\<lparr>options' := timed_options\<lparr>queue_size := 1\<rparr>\<rparr>)
         \<lparr>score' = 0.9, label' = 2\<rparr> 5
       = Inr (busy\<lparr>options' := timed_options\<lparr>queue_size := 1\<rparr>\<rparr>, \<lparr>score' = 0.9, label' = 2\<rparr>)"
  using disabled_passthrough_no_state_change
          [of "busy\<lparr>options' := timed_options\<lparr>queue_size := 1\<rparr>\<rparr>" exact_arithmetic
              "\<lparr>score' = 0.9, label' = 2\<rparr>" 5]
  by simp

text \<open>
  C9. Every run on a fresh calculator ends without a fault, with one output per call,
  and the queue after it is at most \<^verbatim>\<open>queue_size\<close> long. Every prefix of a run is a
  run, so this holds after each call. The configuration ranges over the capacities
  from zero upwards: below zero nothing is ever queued, and the empty queue is longer
  than a negative number.
\<close>

theorem window_never_exceeds_capacity:
  assumes "0 \<le> queue_size opts"
  shows "\<exists>c' outs. run ar (init opts) xs = Inr (c', outs) \<and> length outs = length xs
           \<and> int (length (inferenceQueue c')) \<le> queue_size opts"
proof (cases "1 < queue_size opts")
  case True
  then have "\<exists>c' outs. run ar (init opts) xs = Inr (c', outs) \<and> length outs = length xs
           \<and> options' c' = options' (init opts :: 'a AnglesToDetectionCalculator)
           \<and> int (length (inferenceQueue c'))
               < queue_size (options' (init opts :: 'a AnglesToDetectionCalculator))"
    by (intro run_keeps_below) (simp_all add: init_def)
  then show ?thesis by (auto simp: init_def)
next
  case False
  then have "run ar (init opts) xs = Inr (init opts, map fst xs)"
    by (intro run_off) (simp add: init_def)
  with assms show ?thesis by (simp add: init_def)
qed

text \<open>The example: after its four calls the queue holds two entries.\<close>

theorem window_never_exceeds_capacity_witness:
  "0 \<le> queue_size example_options
   \<and> (\<exists>c' outs. run exact_arithmetic (init example_options) example_inputs = Inr (c', outs)
         \<and> inferenceQueue c' = [\<lparr>score' = 0.9, label' = 2\<rparr>, \<lparr>score' = 0.6, label' = 1\<rparr>]
         \<and> int (length (inferenceQueue c')) \<le> queue_size example_options)"
proof -
  have h: "0 \<le> queue_size example_options" by (simp add: example_options_def)
  from window_never_exceeds_capacity [OF h, of exact_arithmetic example_inputs]
  obtain c' outs where r: "run exact_arithmetic (init example_options) example_inputs = Inr (c', outs)"
      "int (length (inferenceQueue c')) \<le> queue_size example_options"
    by blast
  have "run exact_arithmetic (init example_options) example_inputs =
          Inr (\<lparr>inferenceQueue = [\<lparr>score' = 0.9, label' = 2\<rparr>, \<lparr>score' = 0.6, label' = 1\<rparr>],
                startingGestureTime = 3, options' = example_options\<rparr>,
               [\<lparr>score' = 0.5, label' = 1\<rparr>, \<lparr>score' = 0.7, label' = 1\<rparr>,
                \<lparr>score' = 0.7, label' = 1\<rparr>, \<lparr>score' = 0.9, label' = 2\<rparr>])"
    by (simp add: eval_defs)
  with r have "inferenceQueue c' = [\<lparr>score' = 0.9, label' = 2\<rparr>, \<lparr>score' = 0.6, label' = 1\<rparr>]"
    by auto
  with r h show ?thesis by blast
qed

text \<open>
  C10. With \<^verbatim>\<open>queue_size\<close> at least 2, every run on a fresh calculator ends without a
  fault and leaves a queue of at most \<^verbatim>\<open>queue_size - 1\<close> entries. Whenever the next
  call aggregates, the queue before it held exactly \<^verbatim>\<open>queue_size - 1\<close> entries, the
  append brought it to capacity, and the vote is taken over the queue without its oldest
  entry followed by the new observation: \<^verbatim>\<open>queue_size - 1\<close> entries, which are also
  the queue the call leaves behind.
\<close>

theorem window_stays_below_capacity:
  assumes "2 \<le> queue_size opts"
  shows "\<exists>c' outs. run ar (init opts) xs = Inr (c', outs) \<and> length outs = length xs
           \<and> int (length (inferenceQueue c')) \<le> queue_size opts - 1
           \<and> (\<forall>obs t. queue_size opts \<le> int (length (enqueue ar c' obs t)) \<longrightarrow>
                 int (length (inferenceQueue c')) = queue_size opts - 1
                 \<and> enqueue ar c' obs t = inferenceQueue c' @ [obs]
                 \<and> int (length (tl (inferenceQueue c') @ [obs])) = queue_size opts - 1
                 \<and> (\<exists>c'' out. update ar c' obs t = Inr (c'', out)
                       \<and> aggregate ar (tl (inferenceQueue c') @ [obs]) = out
                       \<and> inferenceQueue c'' = tl (inferenceQueue c') @ [obs]))"
proof -
  from assms have "\<exists>c' outs. run ar (init opts) xs = Inr (c', outs) \<and> length outs = length xs
           \<and> options' c' = options' (init opts :: 'a AnglesToDetectionCalculator)
           \<and> int (length (inferenceQueue c'))
               < queue_size (options' (init opts :: 'a AnglesToDetectionCalculator))"
    by (intro run_keeps_below) (simp_all add: init_def)
  then obtain c' outs where r: "run ar (init opts) xs = Inr (c', outs)" "length outs = length xs"
      and o: "options' c' = opts"
      and below: "int (length (inferenceQueue c')) < queue_size opts"
    by (auto simp: init_def)
  have "int (length (inferenceQueue c')) = queue_size opts - 1
        \<and> enqueue ar c' obs t = inferenceQueue c' @ [obs]
        \<and> int (length (tl (inferenceQueue c') @ [obs])) = queue_size opts - 1
        \<and> (\<exists>c'' out. update ar c' obs t = Inr (c'', out)
              \<and> aggregate ar (tl (inferenceQueue c') @ [obs]) = out
              \<and> inferenceQueue c'' = tl (inferenceQueue c') @ [obs])"
    if full: "queue_size opts \<le> int (length (enqueue ar c' obs t))" for obs t
  proof -
    from full assms have "enqueue ar c' obs t \<noteq> []" by auto
    with enqueue_cases [of ar c' obs t]
    have e: "enqueue ar c' obs t = inferenceQueue c' @ [obs]" by simp
    with full below have len: "int (length (inferenceQueue c')) = queue_size opts - 1" by simp
    with assms have ne: "inferenceQueue c' \<noteq> []" by auto
    then have t: "tl (enqueue ar c' obs t) = tl (inferenceQueue c') @ [obs]" by (simp add: e)
    from assms o full have "update ar c' obs t =
               Inr (c'\<lparr>inferenceQueue := tl (enqueue ar c' obs t), startingGestureTime := t\<rparr>,
                    aggregate ar (tl (enqueue ar c' obs t)))"
      by (intro update_full(2)) simp_all
    with e len ne show ?thesis unfolding t by auto
  qed
  with r below show ?thesis by (intro exI [of _ c'] exI [of _ outs]) simp
qed

text \<open>
  The example after two calls: the queue holds two entries, and the third call votes
  over (1, 0.7), (2, 0.9).
\<close>

theorem window_stays_below_capacity_witness:
  "2 \<le> queue_size example_options
   \<and> run exact_arithmetic (init example_options) (take 2 example_inputs) =
       Inr (\<lparr>inferenceQueue = [\<lparr>score' = 0.5, label' = 1\<rparr>, \<lparr>score' = 0.7, label' = 1\<rparr>],
             startingGestureTime = 1, options' = example_options\<rparr>,
            [\<lparr>score' = 0.5, label' = 1\<rparr>, \<lparr>score' = 0.7, label' = 1\<rparr>])
   \<and> (\<exists>c' outs. run exact_arithmetic (init example_options) (take 2 example_inputs) = Inr (c', outs)
         \<and> int (length (inferenceQueue c')) = queue_size example_options - 1
         \<and> queue_size example_options
             \<le> int (length (enqueue exact_arithmetic c' \<lparr>score' = 0.9, label' = 2\<rparr> 2))
         \<and> (\<exists>c''. update exact_arithmetic c' \<lparr>score' = 0.9, label' = 2\<rparr> 2
                     = Inr (c'', \<lparr>score' = 0.7, label' = 1\<rparr>)
               \<and> inferenceQueue c'' = [\<lparr>score' = 0.7, label' = 1\<rparr>, \<lparr>score' = 0.9, label' = 2\<rparr>]))"
proof -
  let ?obs = "\<lparr>score' = 0.9, label' = 2\<rparr> :: real inValues_t"
  have h: "2 \<le> queue_size example_options" by (simp add: example_options_def)
  have run2: "run exact_arithmetic (init example_options) (take 2 example_inputs) =
       Inr (\<lparr>inferenceQueue = [\<lparr>score' = 0.5, label' = 1\<rparr>, \<lparr>score' = 0.7, label' = 1\<rparr>],
             startingGestureTime = 1, options' = example_options\<rparr>,
            [\<lparr>score' = 0.5, label' = 1\<rparr>, \<lparr>score' = 0.7, label' = 1\<rparr>])"
    by (simp add: eval_defs)
  from window_stays_below_capacity [OF h, of exact_arithmetic "take 2 example_inputs"]
  obtain c' outs where r: "run exact_arithmetic (init example_options) (take 2 example_inputs) = Inr (c', outs)"
      and v: "\<forall>obs t. queue_size example_options \<le> int (length (enqueue exact_arithmetic c' obs t)) \<longrightarrow>
                 int (length (inferenceQueue c')) = queue_size example_options - 1
                 \<and> enqueue exact_arithmetic c' obs t = inferenceQueue c' @ [obs]
                 \<and> int (length (tl (inferenceQueue c') @ [obs])) = queue_size example_options - 1
                 \<and> (\<exists>c'' out. update exact_arithmetic c' obs t = Inr (c'', out)
                       \<and> aggregate exact_arithmetic (tl (inferenceQueue c') @ [obs]) = out
                       \<and> inferenceQueue c'' = tl (inferenceQueue c') @ [obs])"
    by blast
  from r run2 have c': "c' = \<lparr>inferenceQueue = [\<lparr>score' = 0.5, label' = 1\<rparr>, \<lparr>score' = 0.7, label' = 1\<rparr>],
             startingGestureTime = 1, options' = example_options\<rparr>"
    by auto
  have full: "queue_size example_options \<le> int (length (enqueue exact_arithmetic c' ?obs 2))"
    by (simp add: c' example_options_def enqueue_def Let_def)
  with v have "int (length (inferenceQueue c')) = queue_size example_options - 1
                 \<and> (\<exists>c'' out. update exact_arithmetic c' ?obs 2 = Inr (c'', out)
                       \<and> aggregate exact_arithmetic (tl (inferenceQueue c') @ [?obs]) = out
                       \<and> inferenceQueue c'' = tl (inferenceQueue c') @ [?obs])"
    by blast
  moreover have "aggregate exact_arithmetic (tl (inferenceQueue c') @ [?obs]) = \<lparr>score' = 0.7, label' = 1\<rparr>"
    by (simp add: c' eval_defs)
  moreover have "tl (inferenceQueue c') @ [?obs] = [\<lparr>score' = 0.7, label' = 1\<rparr>, ?obs]"
    by (simp add: c')
  ultimately show ?thesis using h run2 r full by auto
qed

end
